theory Spec2Isabelle
  imports Main "HOL-Library.Word"
begin

section \<open>Python values used by \<open>import_mu.py\<close>\<close>

text \<open>
  Python integers are unbounded and are modelled as \<open>int\<close>; a byte of a binary file is
  an \<open>8 word\<close>, and indexing or iterating a \<open>bytes\<close> object yields its unsigned value.
  The interpreter's resource limits (memory, the index size of the host) are not part
  of the model.
\<close>

text \<open>
  The two bare \<open>raise\<close> statements of \<open>load_mbm\<close> run with no active exception, so
  both raise Python's \<open>RuntimeError\<close>; the site tells them apart.  \<open>StructError\<close> is
  \<open>struct.error\<close> of \<open>unpack\<close> on a short header, \<open>ValueError\<close> is what a buffered
  binary file raises for a read length below \<open>-1\<close>, and \<open>IndexError\<close> is an
  out-of-range subscript.
\<close>

datatype raise_site = BadMagic | UnsupportedPixelFormat

datatype error = RuntimeError raise_site | StructError | ValueError | IndexError

text \<open>\<open>sep.join(xs)\<close> on strings.\<close>

fun join :: "string \<Rightarrow> string list \<Rightarrow> string" where
  "join sep [] = []"
| "join sep [x] = x"
| "join sep (x # y # ys) = x @ sep @ join sep (y # ys)"

text \<open>
  Slices.  A bound of a slice is clamped into \<open>0..len\<close>, a negative one counting
  from the end; a slice assignment whose stop lies before its start inserts at the start.
\<close>

definition slice_bound :: "nat \<Rightarrow> int \<Rightarrow> nat" where
  "slice_bound n i = (if i < 0 then nat (max 0 (int n + i)) else min (nat i) n)"

definition py_slice :: "'a list \<Rightarrow> int \<Rightarrow> int \<Rightarrow> 'a list" where
  "py_slice xs i j =
     (let a = slice_bound (length xs) i; b = slice_bound (length xs) j
      in take (b - a) (drop a xs))"

definition py_slice_assign :: "'a list \<Rightarrow> int \<Rightarrow> int \<Rightarrow> 'a list \<Rightarrow> 'a list" where
  "py_slice_assign xs i j v =
     (let a = slice_bound (length xs) i; b = max a (slice_bound (length xs) j)
      in take a xs @ v @ drop b xs)"

text \<open>\<open>xs * n\<close> on lists: no copies for \<open>n \<le> 0\<close>.\<close>

definition py_repeat :: "'a list \<Rightarrow> int \<Rightarrow> 'a list" where
  "py_repeat xs n = concat (replicate (nat n) xs)"

text \<open>
  A \<open>dict\<close> keeps its keys in insertion order; storing under a key that is present
  replaces the value where the key stands.
\<close>

type_synonym ('k, 'v) dict = "('k \<times> 'v) list"

definition dict_set :: "('k, 'v) dict \<Rightarrow> 'k \<Rightarrow> 'v \<Rightarrow> ('k, 'v) dict" where
  "dict_set d k v =
     (if k \<in> fst ` set d then map (\<lambda>(k', v'). if k' = k then (k', v) else (k', v')) d
      else d @ [(k, v)])"

text \<open>A loop whose body may raise: the first error ends it.\<close>

fun for_each :: "('a \<Rightarrow> 's \<Rightarrow> error + 's) \<Rightarrow> 'a list \<Rightarrow> 's \<Rightarrow> error + 's" where
  "for_each body [] s = Inr s"
| "for_each body (x # xs) s =
     (case body x s of Inl e \<Rightarrow> Inl e | Inr s' \<Rightarrow> for_each body xs s')"

section \<open>Wheel friction curves\<close>

text \<open>
  \<open>copy_friction(dst, src)\<close>.  The friction classes themselves live in modules outside
  this file; the record has the five fields of a wheel friction curve, its value type
  and any further fields of the destination are left open.
\<close>

record 'f friction =
  extremumSlip :: 'f
  extremumValue :: 'f
  asymptoteSlip :: 'f
  asymptoteValue :: 'f
  stiffness :: 'f

definition copy_friction ::
  "('f, 'z) friction_scheme \<Rightarrow> ('f, 'y) friction_scheme \<Rightarrow> ('f, 'z) friction_scheme" where
  "copy_friction dst src =
     (let dst = dst\<lparr>extremumSlip := extremumSlip src\<rparr>;
          dst = dst\<lparr>extremumValue := extremumValue src\<rparr>;
          dst = dst\<lparr>asymptoteSlip := asymptoteSlip src\<rparr>;
          dst = dst\<lparr>extremumValue := extremumValue src\<rparr>;
          dst = dst\<lparr>stiffness := stiffness src\<rparr>
      in dst)"

section \<open>The path indexer\<close>

text \<open>
  A decoded object has a name (\<open>obj.transform.name\<close>) and its children in decoded order.
  Python objects have an identity: \<open>ref\<close> stands for it, the two tables hold references,
  and the \<open>path\<close> attribute the pass assigns to an object is kept per reference in
  \<open>path_attr\<close>.  In a decoded tree every node is an object of its own, so the references
  of its nodes are pairwise distinct.
\<close>

datatype muobj = MuObj (ref: nat) (name: string) (children: "muobj list")

record mu =
  obj :: muobj
  objects :: "(string, nat) dict"
  object_paths :: "(string, nat) dict"
  path_attr :: "nat \<rightharpoonup> string"

text \<open>
  \<open>create_object_paths(mu, obj, parents)\<close> for an object, and its loop over the children.
  \<open>parents\<close> is one list shared by all calls: a call appends the name and pops it at
  the end, so the list is threaded through with the tables.
\<close>

fun create_object_paths_obj :: "muobj \<Rightarrow> ('z mu_scheme \<times> string list) \<Rightarrow> ('z mu_scheme \<times> string list)"
and create_object_paths_children :: "muobj list \<Rightarrow> ('z mu_scheme \<times> string list) \<Rightarrow> ('z mu_scheme \<times> string list)" where
  "create_object_paths_obj (MuObj r nm cs) (mu, parents) =
     (let parents = parents @ [nm];
          path = join ''/'' parents;
          mu = mu\<lparr>path_attr := (path_attr mu)(r \<mapsto> path)\<rparr>;
          mu = mu\<lparr>objects := dict_set (objects mu) nm r\<rparr>;
          mu = mu\<lparr>object_paths := dict_set (object_paths mu) path r\<rparr>;
          (mu, parents) = create_object_paths_children cs (mu, parents)
      in (mu, butlast parents))"
| "create_object_paths_children [] s = s"
| "create_object_paths_children (child # cs) s =
     create_object_paths_children cs (create_object_paths_obj child s)"

text \<open>The entry call \<open>create_object_paths(mu)\<close>: both tables start empty.\<close>

definition create_object_paths :: "'z mu_scheme \<Rightarrow> 'z mu_scheme" where
  "create_object_paths mu =
     fst (create_object_paths_obj (obj mu) (mu\<lparr>objects := [], object_paths := []\<rparr>, []))"

text \<open>
  What the properties of the pass are stated with: the nodes in pre-order, the nodes
  in pre-order each with the names of its ancestors from the root, the path a node
  has by its position, one node's writes, a freshly decoded model, the paths of all
  nodes after a pass, and two conditions on the names of a tree.
\<close>

fun preorder :: "muobj \<Rightarrow> muobj list" where
  "preorder (MuObj r nm cs) = MuObj r nm cs # concat (map preorder cs)"

fun with_ancestors :: "string list \<Rightarrow> muobj \<Rightarrow> (string list \<times> muobj) list" where
  "with_ancestors anc (MuObj r nm cs) =
     (anc, MuObj r nm cs) # concat (map (with_ancestors (anc @ [nm])) cs)"

definition path_key :: "string list \<times> muobj \<Rightarrow> string" where
  "path_key e = join ''/'' (fst e @ [name (snd e)])"

definition index_node :: "string list \<times> muobj \<Rightarrow> 'z mu_scheme \<Rightarrow> 'z mu_scheme" where
  "index_node e mu =
     (let path = path_key e in
      mu\<lparr>path_attr := (path_attr mu)(ref (snd e) \<mapsto> path),
         objects := dict_set (objects mu) (name (snd e)) (ref (snd e)),
         object_paths := dict_set (object_paths mu) path (ref (snd e))\<rparr>)"

definition decoded :: "muobj \<Rightarrow> mu" where
  "decoded root = \<lparr>obj = root, objects = [], object_paths = [], path_attr = Map.empty\<rparr>"

definition sibling_names_distinct :: "muobj \<Rightarrow> bool" where
  "sibling_names_distinct root = (\<forall>n \<in> set (preorder root). distinct (map name (children n)))"

definition names_slash_free :: "muobj \<Rightarrow> bool" where
  "names_slash_free root = (\<forall>n \<in> set (preorder root). CHR ''/'' \<notin> set (name n))"

definition node_paths :: "'z mu_scheme \<Rightarrow> string option list" where
  "node_paths mu = map (\<lambda>n. path_attr mu (ref n)) (preorder (obj mu))"

section \<open>Binding animation curves\<close>

text \<open>
  The head of the loop body of \<open>create_action(mu, path, clip)\<close>: the lookup path of a
  curve and the object found under it in \<open>mu.object_paths\<close>, \<open>None\<close> when the path is
  unknown and the curve is skipped.  \<open>create_object\<close> passes the path of the object that
  owns the clip.
\<close>

record curve =
  curve_path :: string
  curve_property :: string



section \<open>The raster decoder\<close>

text \<open>
  \<open>convert_bump(pixels, width, height)\<close>.  \<open>bump_pixel\<close> is the body of the inner loop
  for one \<open>x\<close>: the slice \<open>p\<close> is read from \<open>pixels\<close>, \<open>p[3]\<close> raises when the slice is
  short, and the four new values are stored into \<open>outp\<close> by a slice assignment.  The two
  quotients \<open>nx\<close> and \<open>nz\<close> are computed and never used.  \<open>range(1, n - 1)\<close> is the
  list \<open>[1..n - 2]\<close>.
\<close>

definition bump_pixel :: "int list \<Rightarrow> int \<Rightarrow> int \<Rightarrow> int \<Rightarrow> int list \<Rightarrow> error + int list" where
  "bump_pixel pixels width y x outp =
     (let index = (y * width + x) * 4;
          p = py_slice pixels index (index + 4)
      in if length p < 4 then Inl IndexError
         else Inr (py_slice_assign outp index (index + 4) [p ! 3, p ! 2, 255, 255]))"

definition convert_bump :: "int list \<Rightarrow> int \<Rightarrow> int \<Rightarrow> error + int list" where
  "convert_bump pixels width height =
     for_each (\<lambda>y. for_each (bump_pixel pixels width y) [1..width - 2]) [1..height - 2] pixels"

text \<open>
  An open binary file is the list of the bytes not yet read.  \<open>read(n)\<close> returns at
  most \<open>n\<close> bytes and fewer at the end of the file; \<open>read(-1)\<close> returns all that is left
  and a length below \<open>-1\<close> is refused.
\<close>

definition file_read :: "8 word list \<Rightarrow> int \<Rightarrow> error + (8 word list \<times> 8 word list)" where
  "file_read file n =
     (if n < - 1 then Inl ValueError
      else if n = - 1 then Inr (file, [])
      else Inr (take (nat n) file, drop (nat n) file))"

text \<open>
  \<open>unpack("<5i", header)\<close>: five little-endian signed 32-bit integers out of exactly
  twenty bytes.
\<close>

definition unpack_i32 :: "8 word list \<Rightarrow> int" where
  "unpack_i32 bs =
     (let u = foldr (\<lambda>b acc. uint b + 256 * acc) bs 0
      in if u < 2 ^ 31 then u else u - 2 ^ 32)"

definition unpack_5i :: "8 word list \<Rightarrow> error + (int \<times> int \<times> int \<times> int \<times> int)" where
  "unpack_5i header =
     (if length header \<noteq> 20 then Inl StructError
      else Inr (unpack_i32 (take 4 header),
                unpack_i32 (take 4 (drop 4 header)),
                unpack_i32 (take 4 (drop 8 header)),
                unpack_i32 (take 4 (drop 12 header)),
                unpack_i32 (take 4 (drop 16 header))))"

text \<open>
  \<open>load_mbm\<close>, on the contents of the file at \<open>mbmpath\<close>.  \<open>read_triple\<close> is the body of
  the 24-bit loop for one \<open>i\<close>, on the file and the pixel list; \<open>read_pixels\<close> is the
  choice on \<open>bpp\<close> that yields the pixels before any bump remap.
\<close>

definition read_triple :: "int \<Rightarrow> 8 word list \<times> int list \<Rightarrow> error + (8 word list \<times> int list)" where
  "read_triple i s =
     (case file_read (fst s) 3 of
        Inl e \<Rightarrow> Inl e
      | Inr (p, mbmfile) \<Rightarrow>
          (let l = i * 4 in Inr (mbmfile, py_slice_assign (snd s) l (l + 3) (map uint p))))"

definition read_pixels :: "8 word list \<Rightarrow> int \<Rightarrow> int \<Rightarrow> int \<Rightarrow> error + int list" where
  "read_pixels mbmfile width height bpp =
     (if bpp = 32 then
        (case file_read mbmfile (width * height * 4) of
           Inl e \<Rightarrow> Inl e
         | Inr (pixels, rest) \<Rightarrow> Inr (map uint pixels))
      else if bpp = 24 then
        (case for_each read_triple [0..width * height - 1]
                (mbmfile, py_repeat (py_repeat [0, 0, 0, 255] width) height) of
           Inl e \<Rightarrow> Inl e
         | Inr (rest, pixels) \<Rightarrow> Inr pixels)
      else Inl (RuntimeError UnsupportedPixelFormat))"

definition load_mbm :: "8 word list \<Rightarrow> error + (int \<times> int \<times> int list)" where
  "load_mbm mbmfile =
     (case file_read mbmfile 20 of
        Inl e \<Rightarrow> Inl e
      | Inr (header, mbmfile) \<Rightarrow>
     (case unpack_5i header of
        Inl e \<Rightarrow> Inl e
      | Inr (magic, width, height, bump, bpp) \<Rightarrow>
     if magic \<noteq> 0x50534b03 then Inl (RuntimeError BadMagic)
     else
     (case read_pixels mbmfile width height bpp of
        Inl e \<Rightarrow> Inl e
      | Inr pixels \<Rightarrow>
     if bump \<noteq> 0 then
       (case convert_bump pixels width height of
          Inl e \<Rightarrow> Inl e
        | Inr outp \<Rightarrow> Inr (width, height, outp))
     else Inr (width, height, pixels))))"

text \<open>
  What the properties of the decoder are stated with: the expansion of \<open>n\<close> RGB triples
  to RGBA with alpha 255, the pixels strictly inside the outermost border, the four
  channels of the pixel at column \<open>x\<close> of row \<open>y\<close>, and the state of the output buffer
  of \<open>convert_bump\<close> once the pixels with indices in \<open>P\<close> have been remapped.
\<close>

fun rgb_to_rgba :: "8 word list \<Rightarrow> nat \<Rightarrow> int list" where
  "rgb_to_rgba payload 0 = []"
| "rgb_to_rgba payload (Suc n) =
     map uint (take 3 payload) @ [255] @ rgb_to_rgba (drop 3 payload) n"



definition bumped :: "int list \<Rightarrow> nat set \<Rightarrow> int list \<Rightarrow> bool" where
  "bumped pixels P outp \<longleftrightarrow>
     length outp = length pixels \<and>
     (\<forall>j < length pixels. outp ! j =
        (if j div 4 \<in> P
         then [pixels ! (4 * (j div 4) + 3), pixels ! (4 * (j div 4) + 2), 255, 255] ! (j mod 4)
         else pixels ! j))"

section \<open>Friction curves and curve binding: results\<close>

text \<open>
  C10.  \<open>copy_friction\<close> writes \<open>extremumSlip\<close>, \<open>extremumValue\<close> (twice, with the same
  value), \<open>asymptoteSlip\<close> and \<open>stiffness\<close> of the destination from the source, and leaves
  \<open>asymptoteValue\<close> and every further field of the destination as it was, whatever
  \<open>asymptoteValue\<close> the source carries.
\<close>

theorem copy_friction_frame:
  "copy_friction dst src =
     dst\<lparr>extremumSlip := extremumSlip src, extremumValue := extremumValue src,
         asymptoteSlip := asymptoteSlip src, stiffness := stiffness src\<rparr>
   \<and> asymptoteValue (copy_friction dst src) = asymptoteValue dst
   \<and> friction.more (copy_friction dst src) = friction.more dst
   \<and> copy_friction dst (src\<lparr>asymptoteValue := a\<rparr>) = copy_friction dst src"
  by (simp add: copy_friction_def)


section \<open>The path indexer: results\<close>

lemma map_of_dict_replace:
  "map_of (map (\<lambda>(k', v'). if k' = k then (k', v) else (k', v')) d) x =
     (if x = k then (if k \<in> fst ` set d then Some v else None) else map_of d x)"
  by (induction d) (force simp: image_iff)+

lemma map_of_dict_set: "map_of (dict_set d k v) = (map_of d)(k \<mapsto> v)"
proof (cases "k \<in> fst ` set d")
  case True
  then show ?thesis
    by (simp add: dict_set_def fun_eq_iff map_of_dict_replace)
next
  case False
  then have "map_of d k = None" by (simp add: map_of_eq_None_iff)
  with False show ?thesis
    by (auto simp: dict_set_def map_add_def fun_eq_iff split: option.splits)
qed

lemma create_object_paths_trace:
  "create_object_paths_obj t (mu, ps) = (fold index_node (with_ancestors ps t) mu, ps)"
  "create_object_paths_children cs (mu, ps) =
     (fold index_node (concat (map (with_ancestors ps) cs)) mu, ps)"
proof (induction t "(mu, ps)" and cs "(mu, ps)" arbitrary: mu ps and mu ps
       rule: create_object_paths_obj_create_object_paths_children.induct)
  case (1 r nm cs mu parents)
  show ?case
    by (simp add: "1" Let_def index_node_def path_key_def)
next
  case 2
  show ?case by simp
next
  case (3 child cs)
  show ?case
    by (simp add: "3")
qed

lemma snd_with_ancestors: "map snd (with_ancestors anc t) = preorder t"
  by (induction anc t rule: with_ancestors.induct)
     (simp add: map_concat comp_def cong: map_cong)

lemma objects_fold_index:
  "objects (fold index_node es mu) =
     fold (\<lambda>n d. dict_set d (name n) (ref n)) (map snd es) (objects mu)"
  by (induction es arbitrary: mu) (simp_all add: index_node_def Let_def)

lemma object_paths_fold_index:
  "object_paths (fold index_node es mu) =
     fold (\<lambda>e d. dict_set d (path_key e) (ref (snd e))) es (object_paths mu)"
  by (induction es arbitrary: mu) (simp_all add: index_node_def Let_def)

lemma path_attr_fold_index:
  "path_attr (fold index_node es mu) =
     fold (\<lambda>e m. m(ref (snd e) \<mapsto> path_key e)) es (path_attr mu)"
  by (induction es arbitrary: mu) (simp_all add: index_node_def Let_def)

lemma obj_fold_index: "obj (fold index_node es mu) = obj mu"
  by (induction es arbitrary: mu) (simp_all add: index_node_def Let_def)

lemma fold_upd_other:
  "r \<notin> f ` set es \<Longrightarrow> fold (\<lambda>e m. m(f e \<mapsto> g e)) es m r = m r"
  by (induction es arbitrary: m) auto

lemma fold_upd_distinct:
  "distinct (map f es) \<Longrightarrow> e \<in> set es \<Longrightarrow> fold (\<lambda>e m. m(f e \<mapsto> g e)) es m (f e) = Some (g e)"
proof (induction es arbitrary: m)
  case Nil
  then show ?case by simp
next
  case (Cons a es)
  show ?case
  proof (cases "e = a")
    case True
    with Cons.prems have "f a \<notin> f ` set es" by auto
    then have "fold (\<lambda>e m. m(f e \<mapsto> g e)) es (m(f a \<mapsto> g a)) (f a) = (m(f a \<mapsto> g a)) (f a)"
      by (rule fold_upd_other)
    with True show ?thesis by (simp only: fold_simps fun_upd_same)
  next
    case False
    with Cons show ?thesis by auto
  qed
qed

lemma fold_upd_last:
  "k \<in> f ` set es \<Longrightarrow>
     fold (\<lambda>e m. m(f e \<mapsto> g e)) es m k = Some (g (last (filter (\<lambda>e. f e = k) es)))"
proof (induction es arbitrary: m rule: rev_induct)
  case Nil
  then show ?case by simp
next
  case (snoc a es)
  then show ?case by (cases "f a = k") auto
qed

lemma map_of_fold_dict_set:
  "map_of (fold (\<lambda>e d. dict_set d (f e) (g e)) es d) = fold (\<lambda>e m. m(f e \<mapsto> g e)) es (map_of d)"
  by (induction es arbitrary: d) (simp_all add: map_of_dict_set)

lemma with_ancestors_head: "(a, t) \<in> set (with_ancestors a t)"
  by (cases t) simp

lemma with_ancestors_child:
  "(anc, n) \<in> set (with_ancestors a t) \<Longrightarrow> c \<in> set (children n) \<Longrightarrow>
     (anc @ [name n], c) \<in> set (with_ancestors a t)"
proof (induction a t rule: with_ancestors.induct)
  case (1 a r nm cs)
  show ?case
  proof (cases "(anc, n) = (a, MuObj r nm cs)")
    case True
    with "1.prems" have "c \<in> set cs" by auto
    moreover have "(a @ [nm], c) \<in> set (with_ancestors (a @ [nm]) c)"
      by (rule with_ancestors_head)
    ultimately show ?thesis using True by auto
  next
    case False
    with "1.prems" obtain x where x: "x \<in> set cs" "(anc, n) \<in> set (with_ancestors (a @ [nm]) x)"
      by auto
    then have "(anc @ [name n], c) \<in> set (with_ancestors (a @ [nm]) x)"
      using "1.IH" "1.prems"(2) by blast
    with x show ?thesis by auto
  qed
qed

lemma join_snoc: "xs \<noteq> [] \<Longrightarrow> join sep (xs @ [x]) = join sep xs @ sep @ x"
  by (induction sep xs rule: join.induct) auto

lemma path_key_child: "path_key (anc @ [name n], c) = path_key (anc, n) @ ''/'' @ name c"
  using join_snoc [of "anc @ [name n]" "''/''" "name c"] by (simp add: path_key_def)

lemma chain_shape:
  "e \<in> set (with_ancestors a t) \<Longrightarrow> \<exists>s. fst e @ [name (snd e)] = a @ name t # s"
proof (induction a t rule: with_ancestors.induct)
  case (1 a r nm cs)
  show ?case
  proof (cases "e = (a, MuObj r nm cs)")
    case True
    then show ?thesis by simp
  next
    case False
    with "1.prems" obtain x where x: "x \<in> set cs" "e \<in> set (with_ancestors (a @ [nm]) x)"
      by auto
    from "1.IH" [OF this] show ?thesis by auto
  qed
qed

lemma chain_names:
  "e \<in> set (with_ancestors a t) \<Longrightarrow>
     set (fst e @ [name (snd e)]) \<subseteq> set a \<union> name ` set (preorder t)"
proof (induction a t rule: with_ancestors.induct)
  case (1 a r nm cs)
  show ?case
  proof (cases "e = (a, MuObj r nm cs)")
    case True
    then show ?thesis by auto
  next
    case False
    with "1.prems" obtain x where x: "x \<in> set cs" "e \<in> set (with_ancestors (a @ [nm]) x)"
      by auto
    from "1.IH" [OF this] x(1) show ?thesis by auto
  qed
qed

lemma chains_children_distinct:
  assumes "\<And>x. x \<in> set cs \<Longrightarrow> distinct (map (\<lambda>e. fst e @ [name (snd e)]) (with_ancestors a x))"
    and "distinct (map name cs)"
  shows "distinct (map (\<lambda>e. fst e @ [name (snd e)]) (concat (map (with_ancestors a) cs)))"
  using assms
proof (induction cs)
  case Nil
  then show ?case by simp
next
  case (Cons x cs)
  have disj: "fst e @ [name (snd e)] \<noteq> fst e' @ [name (snd e')]"
    if "e \<in> set (with_ancestors a x)" "y \<in> set cs" "e' \<in> set (with_ancestors a y)" for e e' y
  proof -
    from chain_shape [OF that(1)] obtain s where s: "fst e @ [name (snd e)] = a @ name x # s" ..
    from chain_shape [OF that(3)] obtain s' where s': "fst e' @ [name (snd e')] = a @ name y # s'" ..
    from Cons.prems(2) that(2) have "name x \<noteq> name y" by auto
    with s s' show ?thesis by simp
  qed
  have "distinct (map (\<lambda>e. fst e @ [name (snd e)]) (concat (map (with_ancestors a) cs)))"
    using Cons by simp
  moreover have "distinct (map (\<lambda>e. fst e @ [name (snd e)]) (with_ancestors a x))"
    using Cons.prems(1) by simp
  ultimately show ?case using disj by (fastforce simp: image_iff)
qed

lemma preorder_child_subset: "x \<in> set cs \<Longrightarrow> set (preorder x) \<subseteq> set (preorder (MuObj r nm cs))"
  by auto

lemma chains_distinct:
  "sibling_names_distinct t \<Longrightarrow> distinct (map (\<lambda>e. fst e @ [name (snd e)]) (with_ancestors a t))"
proof (induction a t rule: with_ancestors.induct)
  case (1 a r nm cs)
  have sub: "sibling_names_distinct x" if "x \<in> set cs" for x
    using "1.prems" preorder_child_subset [OF that, of r nm]
    unfolding sibling_names_distinct_def by blast
  have "distinct (map name cs)"
    using "1.prems" by (auto simp: sibling_names_distinct_def)
  with "1.IH" sub
  have d: "distinct (map (\<lambda>e. fst e @ [name (snd e)]) (concat (map (with_ancestors (a @ [nm])) cs)))"
    by (intro chains_children_distinct) auto
  have "a @ [nm] \<noteq> fst e @ [name (snd e)]"
    if "x \<in> set cs" "e \<in> set (with_ancestors (a @ [nm]) x)" for x e
    using chain_shape [OF that(2)] by auto
  with d show ?case by (auto simp: image_iff)
qed

lemma split_at_sep:
  "c \<notin> set x \<Longrightarrow> c \<notin> set y \<Longrightarrow> x @ c # A = y @ c # B \<Longrightarrow> x = y \<and> A = B"
proof (induction x arbitrary: y)
  case Nil
  then show ?case by (cases y) auto
next
  case (Cons a x)
  then show ?case by (cases y) auto
qed

lemma join_inj:
  "xs \<noteq> [] \<Longrightarrow> ys \<noteq> [] \<Longrightarrow> \<forall>x \<in> set xs. c \<notin> set x \<Longrightarrow> \<forall>y \<in> set ys. c \<notin> set y \<Longrightarrow>
     join [c] xs = join [c] ys \<Longrightarrow> xs = ys"
proof (induction xs arbitrary: ys)
  case Nil
  then show ?case by simp
next
  case (Cons x xs)
  from Cons.prems(2) obtain y ys' where ys: "ys = y # ys'" by (cases ys) auto
  show ?case
  proof (cases xs)
    case Nil
    show ?thesis
    proof (cases ys')
      case Nil
      with \<open>xs = []\<close> ys Cons.prems show ?thesis by simp
    next
      case (Cons z zs)
      with \<open>xs = []\<close> ys Cons.prems have "x = y @ c # join [c] (z # zs)" by simp
      with Cons.prems(3) show ?thesis by auto
    qed
  next
    case xs: (Cons w ws)
    show ?thesis
    proof (cases ys')
      case Nil
      with xs ys Cons.prems have "y = x @ c # join [c] (w # ws)" by simp
      with Cons.prems(4) ys show ?thesis by auto
    next
      case (Cons z zs)
      with xs ys Cons.prems have "x @ c # join [c] xs = y @ c # join [c] ys'" by simp
      with Cons.prems ys have "x = y \<and> join [c] xs = join [c] ys'"
        by (intro split_at_sep) auto
      moreover have "xs \<noteq> []" "ys' \<noteq> []" using xs Cons by auto
      ultimately show ?thesis using Cons.IH [of ys'] Cons.prems ys by auto
    qed
  qed
qed

lemma path_keys_distinct:
  assumes "sibling_names_distinct t" "names_slash_free t"
  shows "distinct (map path_key (with_ancestors [] t))"
proof -
  let ?chain = "\<lambda>e. fst e @ [name (snd e)]"
  have free: "\<forall>x \<in> set (?chain e). CHR ''/'' \<notin> set x" if "e \<in> set (with_ancestors [] t)" for e
    using chain_names [OF that] assms(2) by (auto simp: names_slash_free_def)
  have "inj_on (join ''/'') (set (map ?chain (with_ancestors [] t)))"
  proof (rule inj_onI)
    fix u v
    assume u: "u \<in> set (map ?chain (with_ancestors [] t))"
      and v: "v \<in> set (map ?chain (with_ancestors [] t))"
      and eq: "join ''/'' u = join ''/'' v"
    from u obtain e where e: "e \<in> set (with_ancestors [] t)" "u = ?chain e" by auto
    from v obtain e' where e': "e' \<in> set (with_ancestors [] t)" "v = ?chain e'" by auto
    show "u = v"
      using free [OF e(1)] free [OF e'(1)] e(2) e'(2) eq
      by (intro join_inj [of u v "CHR ''/''"]) auto
  qed
  with chains_distinct [OF assms(1), of "[]"]
  have "distinct (map (join ''/'') (map ?chain (with_ancestors [] t)))"
    by (simp only: distinct_map)
  then show ?thesis by (simp add: path_key_def [abs_def] comp_def)
qed

lemma create_object_paths_fold:
  "create_object_paths mu =
     fold index_node (with_ancestors [] (obj mu)) (mu\<lparr>objects := [], object_paths := []\<rparr>)"
  by (simp add: create_object_paths_def create_object_paths_trace)

lemma path_attr_node:
  assumes "distinct (map ref (preorder (obj mu)))" "e \<in> set (with_ancestors [] (obj mu))"
  shows "path_attr (create_object_paths mu) (ref (snd e)) = Some (path_key e)"
proof -
  have "distinct (map (\<lambda>e. ref (snd e)) (with_ancestors [] (obj mu)))"
    using assms(1) snd_with_ancestors [of "[]" "obj mu", symmetric] by (simp add: comp_def)
  from fold_upd_distinct [OF this assms(2), of path_key] show ?thesis
    by (simp add: create_object_paths_fold path_attr_fold_index)
qed

lemma objects_table:
  "objects (create_object_paths mu) =
     fold (\<lambda>n d. dict_set d (name n) (ref n)) (preorder (obj mu)) []"
  by (simp add: create_object_paths_fold objects_fold_index snd_with_ancestors)

lemma object_paths_table:
  "object_paths (create_object_paths mu) =
     fold (\<lambda>e d. dict_set d (path_key e) (ref (snd e))) (with_ancestors [] (obj mu)) []"
  by (simp add: create_object_paths_fold object_paths_fold_index)

text \<open>
  C2.  After the pass over a decoded tree, the path of every node is the names of its
  ancestors from the root and its own name, joined by slashes; the root's path is its
  name and the path of a child is its parent's path, a slash and the child's name; the
  name table and the path table are the result of storing the nodes one by one in
  pre-order, children in decoded order.
\<close>

theorem create_object_paths_preorder:
  assumes "distinct (map ref (preorder (obj mu)))"
  shows "(\<forall>e \<in> set (with_ancestors [] (obj mu)).
            path_attr (create_object_paths mu) (ref (snd e)) = Some (join ''/'' (fst e @ [name (snd e)])))
       \<and> path_attr (create_object_paths mu) (ref (obj mu)) = Some (name (obj mu))
       \<and> (\<forall>n \<in> set (preorder (obj mu)). \<forall>c \<in> set (children n).
            \<exists>p. path_attr (create_object_paths mu) (ref n) = Some p
               \<and> path_attr (create_object_paths mu) (ref c) = Some (p @ ''/'' @ name c))
       \<and> map snd (with_ancestors [] (obj mu)) = preorder (obj mu)
       \<and> objects (create_object_paths mu) =
            fold (\<lambda>n d. dict_set d (name n) (ref n)) (preorder (obj mu)) []
       \<and> object_paths (create_object_paths mu) =
            fold (\<lambda>e d. dict_set d (join ''/'' (fst e @ [name (snd e)])) (ref (snd e)))
              (with_ancestors [] (obj mu)) []"
proof (intro conjI ballI)
  fix e assume "e \<in> set (with_ancestors [] (obj mu))"
  from path_attr_node [OF assms this]
  show "path_attr (create_object_paths mu) (ref (snd e)) = Some (join ''/'' (fst e @ [name (snd e)]))"
    by (simp add: path_key_def)
next
  from path_attr_node [OF assms with_ancestors_head [of "[]" "obj mu"]]
  show "path_attr (create_object_paths mu) (ref (obj mu)) = Some (name (obj mu))"
    by (simp add: path_key_def)
next
  fix n c assume n: "n \<in> set (preorder (obj mu))" and c: "c \<in> set (children n)"
  from n obtain anc where anc: "(anc, n) \<in> set (with_ancestors [] (obj mu))"
    using snd_with_ancestors [of "[]" "obj mu", symmetric] by (auto simp: image_iff)
  from with_ancestors_child [OF anc c]
  have "path_attr (create_object_paths mu) (ref c) = Some (path_key (anc @ [name n], c))"
    using path_attr_node [OF assms] by fastforce
  moreover have "path_attr (create_object_paths mu) (ref n) = Some (path_key (anc, n))"
    using path_attr_node [OF assms anc] by simp
  ultimately show "\<exists>p. path_attr (create_object_paths mu) (ref n) = Some p
      \<and> path_attr (create_object_paths mu) (ref c) = Some (p @ ''/'' @ name c)"
    by (simp add: path_key_child)
next
  show "map snd (with_ancestors [] (obj mu)) = preorder (obj mu)"
    by (rule snd_with_ancestors)
next
  show "objects (create_object_paths mu) =
      fold (\<lambda>n d. dict_set d (name n) (ref n)) (preorder (obj mu)) []"
    by (rule objects_table)
next
  show "object_paths (create_object_paths mu) =
      fold (\<lambda>e d. dict_set d (join ''/'' (fst e @ [name (snd e)])) (ref (snd e)))
        (with_ancestors [] (obj mu)) []"
    using object_paths_table [of mu] by (simp add: path_key_def [abs_def])
qed

text \<open>
  C8.  After the pass, the name table maps every name that occurs in the tree to the
  last node in pre-order that bears it.
\<close>

theorem objects_last_writer:
  assumes "nm \<in> name ` set (preorder (obj mu))"
  shows "map_of (objects (create_object_paths mu)) nm =
           Some (ref (last (filter (\<lambda>n. name n = nm) (preorder (obj mu)))))"
  using fold_upd_last [OF assms, of ref Map.empty]
  by (simp add: objects_table map_of_fold_dict_set)

lemma fold_dict_set_fresh:
  "distinct (map f es) \<Longrightarrow> f ` set es \<inter> fst ` set d = {} \<Longrightarrow>
     fold (\<lambda>e d. dict_set d (f e) (g e)) es d = d @ map (\<lambda>e. (f e, g e)) es"
proof (induction es arbitrary: d)
  case Nil
  then show ?case by simp
next
  case (Cons a es)
  from Cons.prems have fresh: "f a \<notin> fst ` set d" by auto
  then have step: "dict_set d (f a) (g a) = d @ [(f a, g a)]" by (simp add: dict_set_def)
  have "f ` set es \<inter> fst ` set (d @ [(f a, g a)]) = {}"
    using Cons.prems by auto
  with Cons.IH [of "d @ [(f a, g a)]"] Cons.prems(1) step show ?case by simp
qed

lemma node_paths_keys:
  assumes "distinct (map ref (preorder (obj mu)))"
  shows "node_paths (create_object_paths mu) = map (\<lambda>e. Some (path_key e)) (with_ancestors [] (obj mu))"
proof -
  have "obj (create_object_paths mu) = obj mu"
    by (simp add: create_object_paths_fold obj_fold_index)
  then have "node_paths (create_object_paths mu) =
      map (\<lambda>e. path_attr (create_object_paths mu) (ref (snd e))) (with_ancestors [] (obj mu))"
    using snd_with_ancestors [of "[]" "obj mu", symmetric] by (simp add: node_paths_def comp_def)
  also have "\<dots> = map (\<lambda>e. Some (path_key e)) (with_ancestors [] (obj mu))"
    using path_attr_node [OF assms] by (intro map_cong) auto
  finally show ?thesis .
qed

text \<open>
  Two children of one node that share a name get the same path.
\<close>

theorem path_strings_collide:
  "distinct (map ref (preorder (MuObj 0 ''a'' [MuObj 1 ''b'' [], MuObj 2 ''b'' []])))
   \<and> \<not> distinct (node_paths (create_object_paths
          (decoded (MuObj 0 ''a'' [MuObj 1 ''b'' [], MuObj 2 ''b'' []]))))"
  by (simp add: node_paths_def create_object_paths_def decoded_def dict_set_def Let_def)

text \<open>
  C3 (amended).  When the children of every node have pairwise distinct names and no
  name contains a slash, the paths assigned to the nodes of a decoded tree are pairwise
  distinct, the path table has one entry per node, in pre-order, and every node is
  found in it under its own path.
\<close>

theorem path_strings_unique:
  assumes "distinct (map ref (preorder (obj mu)))"
    and "sibling_names_distinct (obj mu)" and "names_slash_free (obj mu)"
  shows "distinct (node_paths (create_object_paths mu))
       \<and> map fst (object_paths (create_object_paths mu)) = map path_key (with_ancestors [] (obj mu))
       \<and> (\<forall>e \<in> set (with_ancestors [] (obj mu)).
            path_attr (create_object_paths mu) (ref (snd e)) = Some (path_key e)
          \<and> map_of (object_paths (create_object_paths mu)) (path_key e) = Some (ref (snd e)))"
proof -
  have keys: "distinct (map path_key (with_ancestors [] (obj mu)))"
    using assms(2,3) by (rule path_keys_distinct)
  have tbl: "object_paths (create_object_paths mu) =
      map (\<lambda>e. (path_key e, ref (snd e))) (with_ancestors [] (obj mu))"
    using fold_dict_set_fresh [OF keys, of "[]" "\<lambda>e. ref (snd e)"]
    by (simp add: object_paths_table)
  have "distinct (node_paths (create_object_paths mu))"
    using keys by (simp add: node_paths_keys [OF assms(1)] distinct_map comp_def inj_on_def)
  moreover have "map fst (object_paths (create_object_paths mu)) = map path_key (with_ancestors [] (obj mu))"
    by (simp add: tbl comp_def)
  moreover have "map_of (object_paths (create_object_paths mu)) (path_key e) = Some (ref (snd e))"
    if "e \<in> set (with_ancestors [] (obj mu))" for e
    using fold_upd_distinct [OF keys that, of "\<lambda>e. ref (snd e)" Map.empty]
    by (simp add: object_paths_table map_of_fold_dict_set)
  ultimately show ?thesis
    using path_attr_node [OF assms(1)] by blast
qed

theorem path_strings_unique_witness:
  "distinct (map ref (preorder (obj (decoded (MuObj 0 ''a'' [MuObj 1 ''b'' [MuObj 3 ''b'' []], MuObj 2 ''c'' []])))))
   \<and> sibling_names_distinct (obj (decoded (MuObj 0 ''a'' [MuObj 1 ''b'' [MuObj 3 ''b'' []], MuObj 2 ''c'' []])))
   \<and> names_slash_free (obj (decoded (MuObj 0 ''a'' [MuObj 1 ''b'' [MuObj 3 ''b'' []], MuObj 2 ''c'' []])))
   \<and> distinct (node_paths (create_object_paths
        (decoded (MuObj 0 ''a'' [MuObj 1 ''b'' [MuObj 3 ''b'' []], MuObj 2 ''c'' []]))))
   \<and> map fst (object_paths (create_object_paths
        (decoded (MuObj 0 ''a'' [MuObj 1 ''b'' [MuObj 3 ''b'' []], MuObj 2 ''c'' []]))))
       = [''a'', ''a/b'', ''a/b/b'', ''a/c'']"
proof -
  let ?mu = "decoded (MuObj 0 ''a'' [MuObj 1 ''b'' [MuObj 3 ''b'' []], MuObj 2 ''c'' []])"
  have h1: "distinct (map ref (preorder (obj ?mu)))" by (simp add: decoded_def)
  have h2: "sibling_names_distinct (obj ?mu)" by (simp add: decoded_def sibling_names_distinct_def)
  have h3: "names_slash_free (obj ?mu)" by (simp add: decoded_def names_slash_free_def)
  from path_strings_unique [OF h1 h2 h3] h1 h2 h3 show ?thesis
    by (simp add: decoded_def path_key_def)
qed

theorem create_object_paths_preorder_witness:
  "distinct (map ref (preorder (obj (decoded (MuObj 0 ''a'' [MuObj 1 ''b'' [MuObj 3 ''d'' []], MuObj 2 ''b'' []])))))
   \<and> path_attr (create_object_paths
        (decoded (MuObj 0 ''a'' [MuObj 1 ''b'' [MuObj 3 ''d'' []], MuObj 2 ''b'' []]))) 3 = Some ''a/b/d''
   \<and> objects (create_object_paths
        (decoded (MuObj 0 ''a'' [MuObj 1 ''b'' [MuObj 3 ''d'' []], MuObj 2 ''b'' []])))
       = [(''a'', 0), (''b'', 2), (''d'', 3)]
   \<and> object_paths (create_object_paths
        (decoded (MuObj 0 ''a'' [MuObj 1 ''b'' [MuObj 3 ''d'' []], MuObj 2 ''b'' []])))
       = [(''a'', 0), (''a/b'', 2), (''a/b/d'', 3)]"
proof -
  let ?mu = "decoded (MuObj 0 ''a'' [MuObj 1 ''b'' [MuObj 3 ''d'' []], MuObj 2 ''b'' []])"
  have h: "distinct (map ref (preorder (obj ?mu)))" by (simp add: decoded_def)
  from create_object_paths_preorder [OF h] h show ?thesis
    by (simp add: decoded_def dict_set_def)
qed

theorem objects_last_writer_witness:
  "''b'' \<in> name ` set (preorder (obj (decoded (MuObj 0 ''a'' [MuObj 1 ''b'' [MuObj 3 ''d'' []], MuObj 2 ''b'' []]))))
   \<and> map_of (objects (create_object_paths
        (decoded (MuObj 0 ''a'' [MuObj 1 ''b'' [MuObj 3 ''d'' []], MuObj 2 ''b'' []])))) ''b'' = Some 2"
proof -
  let ?mu = "decoded (MuObj 0 ''a'' [MuObj 1 ''b'' [MuObj 3 ''d'' []], MuObj 2 ''b'' []])"
  have h: "''b'' \<in> name ` set (preorder (obj ?mu))" by (simp add: decoded_def)
  from objects_last_writer [OF h] h show ?thesis
    by (simp add: decoded_def)
qed

section \<open>The raster decoder: results\<close>

lemma unpack_5i_length: "unpack_5i header = Inr v \<Longrightarrow> length header = 20"
  by (simp add: unpack_5i_def split: if_splits)

lemma load_mbm_header:
  assumes "unpack_5i header = Inr (magic, width, height, bump, bpp)"
  shows "load_mbm (header @ payload) =
     (if magic \<noteq> 0x50534b03 then Inl (RuntimeError BadMagic)
      else case read_pixels payload width height bpp of
        Inl e \<Rightarrow> Inl e
      | Inr pixels \<Rightarrow>
          if bump \<noteq> 0 then
            (case convert_bump pixels width height of
               Inl e \<Rightarrow> Inl e
             | Inr outp \<Rightarrow> Inr (width, height, outp))
          else Inr (width, height, pixels))"
proof -
  have "length header = 20" using assms by (rule unpack_5i_length)
  then have "file_read (header @ payload) 20 = Inr (header, payload)"
    by (simp add: file_read_def)
  with assms show ?thesis by (simp add: load_mbm_def)
qed

text \<open>
  C5.  A file whose twenty-byte header carries a magic other than \<open>0x50534B03\<close> makes
  \<open>load_mbm\<close> fail at the magic check, whatever follows the header; no width, height
  or pixel is returned.
\<close>

theorem load_mbm_bad_magic:
  assumes "unpack_5i header = Inr (magic, width, height, bump, bpp)"
    and "magic \<noteq> 0x50534b03"
  shows "load_mbm (header @ payload) = Inl (RuntimeError BadMagic)"
  using assms(2) by (simp add: load_mbm_header [OF assms(1)])

text \<open>
  C6.  With a valid magic and a \<open>bitsPerPixel\<close> field that is neither 24 nor 32,
  \<open>load_mbm\<close> fails at the pixel format check.
\<close>

theorem load_mbm_unsupported_depth:
  assumes "unpack_5i header = Inr (0x50534b03, width, height, bump, bpp)"
    and "bpp \<noteq> 24" and "bpp \<noteq> 32"
  shows "load_mbm (header @ payload) = Inl (RuntimeError UnsupportedPixelFormat)"
  using assms(2,3) by (simp add: load_mbm_header [OF assms(1)] read_pixels_def)

lemma slice_assign_inside:
  "0 \<le> i \<Longrightarrow> i \<le> j \<Longrightarrow> j \<le> int (length xs) \<Longrightarrow>
     py_slice_assign xs i j v = take (nat i) xs @ v @ drop (nat j) xs"
  by (auto simp: py_slice_assign_def slice_bound_def Let_def max_def min_def)

lemma slice_inside:
  "0 \<le> i \<Longrightarrow> i \<le> j \<Longrightarrow> j \<le> int (length xs) \<Longrightarrow>
     py_slice xs i j = take (nat (j - i)) (drop (nat i) xs)"
  by (auto simp: py_slice_def slice_bound_def Let_def min_def nat_diff_distrib)

lemma read_triple_step:
  assumes "3 \<le> length f" "length pre = 4 * k"
  shows "read_triple (int k) (f, pre @ [0, 0, 0, 255] @ rest) =
           Inr (drop 3 f, (pre @ map uint (take 3 f) @ [255]) @ rest)"
proof -
  have "py_slice_assign (pre @ [0, 0, 0, 255] @ rest) (int k * 4) (int k * 4 + 3) v =
          pre @ v @ 255 # rest" for v
    using assms(2) by (subst slice_assign_inside) (simp_all add: nat_add_distrib nat_mult_distrib)
  then show ?thesis
    by (simp add: read_triple_def file_read_def Let_def)
qed

lemma read_triples:
  "3 * m \<le> length f \<Longrightarrow> length pre = 4 * k \<Longrightarrow>
     for_each read_triple [int k..int (k + m) - 1]
       (f, pre @ concat (replicate m [0, 0, 0, 255])) =
     Inr (drop (3 * m) f, pre @ rgb_to_rgba f m)"
proof (induction m arbitrary: f pre k)
  case 0
  then show ?case by simp
next
  case (Suc m)
  have range: "[int k..int k + int m] = int k # [1 + int k..int k + int m]"
    by (subst upto_rec1) (simp_all add: add.commute)
  have step: "read_triple (int k) (f, pre @ [0, 0, 0, 255] @ concat (replicate m [0, 0, 0, 255]))
      = Inr (drop 3 f, (pre @ map uint (take 3 f) @ [255]) @ concat (replicate m [0, 0, 0, 255]))"
    using Suc.prems by (intro read_triple_step) auto
  have len: "length (pre @ map uint (take 3 f) @ [255]) = 4 * Suc k"
    using Suc.prems by simp
  have "3 * m \<le> length (drop 3 f)" using Suc.prems by simp
  from Suc.IH [OF this len] step show ?case
    by (simp add: range add.commute)
qed

lemma concat_replicate_nested:
  "concat (replicate b (concat (replicate a xs))) = concat (replicate (a * b) xs)"
  by (induction b) (simp_all add: replicate_add)

lemma read_pixels_24:
  assumes "0 \<le> width" "0 \<le> height" "width * height * 3 \<le> int (length payload)"
  shows "read_pixels payload width height 24 = Inr (rgb_to_rgba payload (nat (width * height)))"
proof -
  let ?n = "nat (width * height)"
  have n: "int ?n = width * height" using assms by simp
  have rep: "py_repeat (py_repeat [0, 0, 0, 255] width) height = concat (replicate ?n [0, 0, 0, 255::int])"
    using assms(1,2)
    by (simp add: py_repeat_def nat_mult_distrib concat_replicate_nested)
  have nn: "0 \<le> width * height" using assms(1,2) by simp
  have "3 * ?n \<le> length payload" using assms(3) n by linarith
  from read_triples [OF this, of "[]" 0] show ?thesis
    by (simp add: read_pixels_def rep nn)
qed

lemma nth_replace4:
  assumes "k + 4 \<le> length xs" "length v = 4" "j < length xs"
  shows "(take k xs @ v @ drop (k + 4) xs) ! j = (if k \<le> j \<and> j < k + 4 then v ! (j - k) else xs ! j)"
proof -
  have lk: "length (take k xs) = k" using assms(1) by simp
  consider "j < k" | "k \<le> j" "j < k + 4" | "k + 4 \<le> j" by linarith
  then show ?thesis
  proof cases
    case 1
    then show ?thesis using lk by (simp add: nth_append)
  next
    case 2
    then have "j - k < 4" by simp
    with 2 show ?thesis using lk assms(2) by (simp add: nth_append)
  next
    case 3
    then have "\<not> j - k < 4" "\<not> j < k" by simp_all
    then have "(take k xs @ v @ drop (k + 4) xs) ! j = drop (k + 4) xs ! (j - k - 4)"
      using lk assms(2) by (simp add: nth_append)
    also have "\<dots> = xs ! j" using 3 assms(1) by simp
    finally show ?thesis using 3 by simp
  qed
qed

lemma take4_nth:
  "k + 4 \<le> length xs \<Longrightarrow> take 4 (drop k xs) = [xs ! k, xs ! (k + 1), xs ! (k + 2), xs ! (k + 3)]"
  by (simp add: list_eq_iff_nth_eq nth_Cons' numeral_eq_Suc less_Suc_eq)

lemma bump_pixel_value:
  assumes "y * w + x = int q" "4 * q + 4 \<le> length pixels" "length outp = length pixels"
  shows "bump_pixel pixels w y x outp =
     Inr (take (4 * q) outp @ [pixels ! (4 * q + 3), pixels ! (4 * q + 2), 255, 255]
          @ drop (4 * q + 4) outp)"
proof -
  have p: "py_slice pixels (int q * 4) (int q * 4 + 4) = take 4 (drop (4 * q) pixels)"
    using assms(2) by (subst slice_inside) (simp_all add: mult.commute nat_mult_distrib)
  have a: "py_slice_assign outp (int q * 4) (int q * 4 + 4) v =
      take (4 * q) outp @ v @ drop (4 * q + 4) outp" for v
    using assms(2,3)
    by (subst slice_assign_inside) (simp_all add: nat_add_distrib nat_mult_distrib mult.commute)
  show ?thesis
    unfolding bump_pixel_def assms(1) Let_def p a
    using assms(2) by (simp add: take4_nth)
qed

lemma bump_pixel_step:
  assumes "bumped pixels P outp" "0 \<le> y * w + x" "(y * w + x) * 4 + 4 \<le> int (length pixels)"
  shows "\<exists>outp'. bump_pixel pixels w y x outp = Inr outp'
           \<and> bumped pixels (insert (nat (y * w + x)) P) outp'"
proof -
  define q where "q = nat (y * w + x)"
  have q: "y * w + x = int q" using assms(2) by (simp add: q_def)
  let ?v = "[pixels ! (4 * q + 3), pixels ! (4 * q + 2), 255, 255]"
  let ?out = "take (4 * q) outp @ ?v @ drop (4 * q + 4) outp"
  have len: "length outp = length pixels" using assms(1) by (simp add: bumped_def)
  have "int (4 * q + 4) \<le> int (length pixels)" using assms(3) unfolding q by simp
  then have bound: "4 * q + 4 \<le> length pixels" by (simp only: of_nat_le_iff)
  have "bumped pixels (insert q P) ?out"
    unfolding bumped_def
  proof (intro conjI allI impI)
    show "length ?out = length pixels" using bound len by simp
  next
    fix j assume j: "j < length pixels"
    have nth: "?out ! j = (if 4 * q \<le> j \<and> j < 4 * q + 4 then ?v ! (j - 4 * q) else outp ! j)"
      using bound j len by (intro nth_replace4) simp_all
    have old: "outp ! j = (if j div 4 \<in> P
         then [pixels ! (4 * (j div 4) + 3), pixels ! (4 * (j div 4) + 2), 255, 255] ! (j mod 4)
         else pixels ! j)"
      using assms(1) j by (simp add: bumped_def)
    show "?out ! j = (if j div 4 \<in> insert q P
         then [pixels ! (4 * (j div 4) + 3), pixels ! (4 * (j div 4) + 2), 255, 255] ! (j mod 4)
         else pixels ! j)"
    proof (cases "4 * q \<le> j \<and> j < 4 * q + 4")
      case True
      then have "j div 4 = q" "j mod 4 = j - 4 * q" by presburger+
      with nth True show ?thesis by simp
    next
      case False
      then have "j div 4 \<noteq> q" by presburger
      with nth old False show ?thesis by simp
    qed
  qed
  then show ?thesis
    using bump_pixel_value [OF q bound len] by (simp add: q_def)
qed

lemma bump_row:
  assumes "bumped pixels P outp"
    and "\<forall>x \<in> set xs. 0 \<le> y * w + x \<and> (y * w + x) * 4 + 4 \<le> int (length pixels)"
  shows "\<exists>outp'. for_each (bump_pixel pixels w y) xs outp = Inr outp'
           \<and> bumped pixels (P \<union> (\<lambda>x. nat (y * w + x)) ` set xs) outp'"
  using assms
proof (induction xs arbitrary: P outp)
  case Nil
  then show ?case by simp
next
  case (Cons x xs)
  from bump_pixel_step [OF Cons.prems(1), of y w x] Cons.prems(2)
  obtain o1 where o1: "bump_pixel pixels w y x outp = Inr o1"
    "bumped pixels (insert (nat (y * w + x)) P) o1" by auto
  from Cons.IH [OF o1(2)] Cons.prems(2)
  obtain o2 where o2: "for_each (bump_pixel pixels w y) xs o1 = Inr o2"
    "bumped pixels (insert (nat (y * w + x)) P \<union> (\<lambda>x. nat (y * w + x)) ` set xs) o2" by auto
  have "insert (nat (y * w + x)) P \<union> (\<lambda>x. nat (y * w + x)) ` set xs
      = P \<union> (\<lambda>x. nat (y * w + x)) ` set (x # xs)" by auto
  with o1 o2 show ?case by simp
qed

lemma bump_rows:
  assumes "bumped pixels P outp"
    and "\<forall>y \<in> set ys. \<forall>x \<in> set xs. 0 \<le> y * w + x \<and> (y * w + x) * 4 + 4 \<le> int (length pixels)"
  shows "\<exists>outp'. for_each (\<lambda>y. for_each (bump_pixel pixels w y) xs) ys outp = Inr outp'
           \<and> bumped pixels (P \<union> (\<lambda>(y, x). nat (y * w + x)) ` (set ys \<times> set xs)) outp'"
  using assms
proof (induction ys arbitrary: P outp)
  case Nil
  then show ?case by simp
next
  case (Cons y ys)
  from bump_row [OF Cons.prems(1), of xs y w] Cons.prems(2)
  obtain o1 where o1: "for_each (bump_pixel pixels w y) xs outp = Inr o1"
    "bumped pixels (P \<union> (\<lambda>x. nat (y * w + x)) ` set xs) o1" by auto
  from Cons.IH [OF o1(2)] Cons.prems(2)
  obtain o2 where o2: "for_each (\<lambda>y. for_each (bump_pixel pixels w y) xs) ys o1 = Inr o2"
    "bumped pixels ((P \<union> (\<lambda>x. nat (y * w + x)) ` set xs)
        \<union> (\<lambda>(y, x). nat (y * w + x)) ` (set ys \<times> set xs)) o2" by auto
  have "(P \<union> (\<lambda>x. nat (y * w + x)) ` set xs) \<union> (\<lambda>(y, x). nat (y * w + x)) ` (set ys \<times> set xs)
      = P \<union> (\<lambda>(y, x). nat (y * w + x)) ` (set (y # ys) \<times> set xs)" by auto
  with o1 o2 show ?case by simp
qed


lemma interior_bounds:
  fixes w h :: int
  assumes "1 \<le> x" "x \<le> w - 2" "1 \<le> y" "y \<le> h - 2"
  shows "0 \<le> y * w + x \<and> (y * w + x) * 4 + 4 \<le> w * h * 4"
proof -
  define a b where "a = y * w" and "b = w * h"
  have w: "0 \<le> w" using assms(1,2) by linarith
  have "0 \<le> a" using assms(3) w by (simp add: a_def)
  moreover have "y * w \<le> (h - 2) * w" using assms(4) w by (rule mult_right_mono)
  then have "a \<le> b - 2 * w" by (simp add: algebra_simps a_def b_def)
  ultimately have "0 \<le> a + x \<and> (a + x) * 4 + 4 \<le> b * 4" using assms(1,2) w by auto
  then show ?thesis by (simp add: a_def b_def)
qed


lemma convert_bump_bumped:
  assumes "int (length pixels) = width * height * 4"
  shows "\<exists>outp. convert_bump pixels width height = Inr outp
           \<and> bumped pixels ((\<lambda>(y, x). nat (y * width + x)) ` ({1..height - 2} \<times> {1..width - 2})) outp"
proof -
  have start: "bumped pixels {} pixels" by (simp add: bumped_def)
  have "\<forall>y \<in> set [1..height - 2]. \<forall>x \<in> set [1..width - 2].
      0 \<le> y * width + x \<and> (y * width + x) * 4 + 4 \<le> int (length pixels)"
    using interior_bounds [of _ width _ height] assms by simp
  from bump_rows [OF start this] show ?thesis
    by (simp add: convert_bump_def)
qed



lemma convert_bump_length:
  assumes "int (length pixels) = width * height * 4"
  shows "\<exists>outp. convert_bump pixels width height = Inr outp \<and> length outp = length pixels"
  using convert_bump_bumped [OF assms] by (auto simp: bumped_def)

lemma take3_nth: "3 \<le> length f \<Longrightarrow> take 3 f = [f ! 0, f ! 1, f ! 2]"
  by (simp add: list_eq_iff_nth_eq nth_Cons' numeral_eq_Suc less_Suc_eq)

lemma rgb_to_rgba_length: "3 * n \<le> length f \<Longrightarrow> length (rgb_to_rgba f n) = 4 * n"
  by (induction n arbitrary: f) simp_all

lemma rgb_to_rgba_pixel:
  "3 * n \<le> length f \<Longrightarrow> i < n \<Longrightarrow>
     take 4 (drop (4 * i) (rgb_to_rgba f n)) =
       [uint (f ! (3 * i)), uint (f ! (3 * i + 1)), uint (f ! (3 * i + 2)), 255]"
proof (induction n arbitrary: f i)
  case 0
  then show ?case by simp
next
  case (Suc n)
  have f3: "3 \<le> length f" using Suc.prems(1) by simp
  show ?case
  proof (cases i)
    case 0
    then show ?thesis using f3 by (simp add: take3_nth numeral_2_eq_2)
  next
    case (Suc j)
    have "3 * n \<le> length (drop 3 f)" using Suc.prems(1) by simp
    moreover have "j < n" using Suc.prems(2) Suc by simp
    ultimately have "take 4 (drop (4 * j) (rgb_to_rgba (drop 3 f) n)) =
        [uint (drop 3 f ! (3 * j)), uint (drop 3 f ! (3 * j + 1)), uint (drop 3 f ! (3 * j + 2)), 255]"
      by (rule Suc.IH)
    moreover have "drop (4 * i) (rgb_to_rgba f (Suc n)) = drop (4 * j) (rgb_to_rgba (drop 3 f) n)"
      using f3 Suc by simp
    ultimately show ?thesis using f3 Suc by (simp add: add.commute add.left_commute)
  qed
qed

lemma read_pixels_32:
  assumes "0 \<le> width" "0 \<le> height" "width * height * 4 \<le> int (length payload)"
  shows "\<exists>pixels. read_pixels payload width height 32 = Inr pixels
           \<and> int (length pixels) = width * height * 4"
proof -
  have nn: "0 \<le> width * height" using assms(1,2) by simp
  then have "\<not> width * height * 4 < - 1" "width * height * 4 \<noteq> - 1" by linarith+
  moreover have "int (min (length payload) (nat (width * height * 4))) = width * height * 4"
    using assms(3) nn by simp
  ultimately show ?thesis
    by (simp add: read_pixels_def file_read_def)
qed

text \<open>
  With width and height both \<open>-1\<close> the pixel list starts empty, one triple is read and
  stored without an alpha byte.
\<close>

theorem load_mbm_rgb_negative_size:
  "load_mbm ([0x03, 0x4b, 0x53, 0x50, 0xff, 0xff, 0xff, 0xff, 0xff, 0xff, 0xff, 0xff,
              0, 0, 0, 0, 24, 0, 0, 0] @ [1, 2, 3]) = Inr (- 1, - 1, [1, 2, 3])
   \<and> (- 1 :: int) * (- 1) * 3 \<le> int (length [1, 2, 3 :: 8 word])
   \<and> int (length [1, 2, 3 :: int]) \<noteq> (- 1) * (- 1) * 4"
  by (simp add: load_mbm_def file_read_def unpack_5i_def unpack_i32_def read_pixels_def
      read_triple_def py_repeat_def py_slice_assign_def slice_bound_def Let_def)

text \<open>
  C4 (amended).  With a valid magic, 24 bits per pixel, a width and a height that are
  not negative and a payload of at least \<open>width * height * 3\<close> bytes, the pixels before
  any bump remap are the \<open>width * height\<close> input triples, each followed by the alpha
  byte 255; \<open>load_mbm\<close> returns them as they are when the bump flag is zero and hands
  them to \<open>convert_bump\<close> otherwise.
\<close>

theorem load_mbm_rgb:
  assumes "unpack_5i header = Inr (0x50534b03, width, height, bump, 24)"
    and "0 \<le> width" and "0 \<le> height"
    and "width * height * 3 \<le> int (length payload)"
  shows "read_pixels payload width height 24 = Inr (rgb_to_rgba payload (nat (width * height)))
     \<and> load_mbm (header @ payload) =
         (if bump \<noteq> 0
          then (case convert_bump (rgb_to_rgba payload (nat (width * height))) width height of
                  Inl e \<Rightarrow> Inl e | Inr outp \<Rightarrow> Inr (width, height, outp))
          else Inr (width, height, rgb_to_rgba payload (nat (width * height))))
     \<and> int (length (rgb_to_rgba payload (nat (width * height)))) = width * height * 4
     \<and> (\<forall>i < nat (width * height).
          take 4 (drop (4 * i) (rgb_to_rgba payload (nat (width * height)))) =
            [uint (payload ! (3 * i)), uint (payload ! (3 * i + 1)),
             uint (payload ! (3 * i + 2)), 255])"
proof -
  let ?n = "nat (width * height)"
  have n: "int ?n = width * height" using assms(2,3) by simp
  have enough: "3 * ?n \<le> length payload" using assms(4) n by linarith
  have rd: "read_pixels payload width height 24 = Inr (rgb_to_rgba payload ?n)"
    using assms(2-4) by (rule read_pixels_24)
  have "int (length (rgb_to_rgba payload ?n)) = width * height * 4"
    using rgb_to_rgba_length [OF enough] n by simp
  moreover have "\<forall>i < ?n. take 4 (drop (4 * i) (rgb_to_rgba payload ?n)) =
      [uint (payload ! (3 * i)), uint (payload ! (3 * i + 1)), uint (payload ! (3 * i + 2)), 255]"
    using rgb_to_rgba_pixel [OF enough] by blast
  moreover have "load_mbm (header @ payload) =
         (if bump \<noteq> 0
          then (case convert_bump (rgb_to_rgba payload ?n) width height of
                  Inl e \<Rightarrow> Inl e | Inr outp \<Rightarrow> Inr (width, height, outp))
          else Inr (width, height, rgb_to_rgba payload ?n))"
    by (simp add: load_mbm_header [OF assms(1)] rd)
  ultimately show ?thesis using rd by blast
qed

text \<open>
  A payload shorter than the header announces: the 32-bit branch returns the bytes
  there are, the 24-bit branch deletes the three placeholder bytes of a pixel it cannot
  fill.
\<close>

theorem load_mbm_short_buffer:
  "load_mbm ([0x03, 0x4b, 0x53, 0x50, 1, 0, 0, 0, 1, 0, 0, 0, 0, 0, 0, 0, 32, 0, 0, 0] @ [])
     = Inr (1, 1, [])
   \<and> load_mbm ([0x03, 0x4b, 0x53, 0x50, 1, 0, 0, 0, 1, 0, 0, 0, 0, 0, 0, 0, 24, 0, 0, 0] @ [])
     = Inr (1, 1, [255])
   \<and> int (length ([] :: int list)) \<noteq> 1 * 1 * 4
   \<and> int (length [255 :: int]) \<noteq> 1 * 1 * 4"
  by (simp add: load_mbm_def file_read_def unpack_5i_def unpack_i32_def read_pixels_def
      read_triple_def py_repeat_def py_slice_assign_def slice_bound_def Let_def)

text \<open>
  C7 (amended).  With a valid magic, 24 or 32 bits per pixel, a width and a height that
  are not negative and a payload of at least \<open>width * height * bitsPerPixel / 8\<close> bytes,
  \<open>load_mbm\<close> returns the header's width and height and a buffer of exactly
  \<open>width * height * 4\<close> bytes, with or without the bump remap.
\<close>

theorem load_mbm_buffer_length:
  assumes "unpack_5i header = Inr (0x50534b03, width, height, bump, bpp)"
    and "bpp = 24 \<or> bpp = 32"
    and "0 \<le> width" and "0 \<le> height"
    and "width * height * (bpp div 8) \<le> int (length payload)"
  shows "\<exists>pixels. load_mbm (header @ payload) = Inr (width, height, pixels)
           \<and> int (length pixels) = width * height * 4"
proof -
  have "\<exists>pixels. read_pixels payload width height bpp = Inr pixels
          \<and> int (length pixels) = width * height * 4"
  proof (cases "bpp = 32")
    case True
    with assms(3-5) show ?thesis by (simp add: read_pixels_32)
  next
    case False
    with assms(2) have bpp: "bpp = 24" by simp
    let ?n = "nat (width * height)"
    have n: "int ?n = width * height" using assms(3,4) by simp
    have enough: "3 * ?n \<le> length payload" using assms(5) n bpp by simp
    have "read_pixels payload width height 24 = Inr (rgb_to_rgba payload ?n)"
      using assms(3-5) bpp by (intro read_pixels_24) simp_all
    with rgb_to_rgba_length [OF enough] n bpp show ?thesis by simp
  qed
  then obtain pixels where px: "read_pixels payload width height bpp = Inr pixels"
    "int (length pixels) = width * height * 4" by blast
  show ?thesis
  proof (cases "bump = 0")
    case True
    with px show ?thesis by (simp add: load_mbm_header [OF assms(1)])
  next
    case False
    from convert_bump_length [OF px(2)] obtain outp
      where "convert_bump pixels width height = Inr outp" "length outp = length pixels" by blast
    with px False show ?thesis by (simp add: load_mbm_header [OF assms(1)])
  qed
qed

theorem load_mbm_bad_magic_witness:
  "unpack_5i [0, 0, 0, 0, 1, 0, 0, 0, 1, 0, 0, 0, 0, 0, 0, 0, 32, 0, 0, 0] = Inr (0, 1, 1, 0, 32)
   \<and> (0::int) \<noteq> 0x50534b03
   \<and> load_mbm ([0, 0, 0, 0, 1, 0, 0, 0, 1, 0, 0, 0, 0, 0, 0, 0, 32, 0, 0, 0] @ [9, 9, 9, 9])
       = Inl (RuntimeError BadMagic)"
proof -
  have h: "unpack_5i [0, 0, 0, 0, 1, 0, 0, 0, 1, 0, 0, 0, 0, 0, 0, 0, 32, 0, 0, 0]
      = Inr (0, 1, 1, 0, 32)"
    by (simp add: unpack_5i_def unpack_i32_def)
  have m: "(0::int) \<noteq> 0x50534b03" by simp
  from load_mbm_bad_magic [OF h m, of "[9, 9, 9, 9]"] h m show ?thesis by blast
qed

theorem load_mbm_unsupported_depth_witness:
  "unpack_5i [0x03, 0x4b, 0x53, 0x50, 1, 0, 0, 0, 1, 0, 0, 0, 0, 0, 0, 0, 16, 0, 0, 0]
     = Inr (0x50534b03, 1, 1, 0, 16)
   \<and> (16::int) \<noteq> 24 \<and> (16::int) \<noteq> 32
   \<and> load_mbm ([0x03, 0x4b, 0x53, 0x50, 1, 0, 0, 0, 1, 0, 0, 0, 0, 0, 0, 0, 16, 0, 0, 0] @ [7, 7])
       = Inl (RuntimeError UnsupportedPixelFormat)"
proof -
  have h: "unpack_5i [0x03, 0x4b, 0x53, 0x50, 1, 0, 0, 0, 1, 0, 0, 0, 0, 0, 0, 0, 16, 0, 0, 0]
      = Inr (0x50534b03, 1, 1, 0, 16)"
    by (simp add: unpack_5i_def unpack_i32_def)
  have a: "(16::int) \<noteq> 24" and b: "(16::int) \<noteq> 32" by simp_all
  from load_mbm_unsupported_depth [OF h a b, of "[7, 7]"] h a b show ?thesis by blast
qed

theorem load_mbm_rgb_witness:
  "unpack_5i [0x03, 0x4b, 0x53, 0x50, 2, 0, 0, 0, 2, 0, 0, 0, 0, 0, 0, 0, 24, 0, 0, 0]
     = Inr (0x50534b03, 2, 2, 0, 24)
   \<and> (0::int) \<le> 2
   \<and> (2::int) * 2 * 3 \<le> int (length [1, 2, 3, 4, 5, 6, 7, 8, 9, 10, 11, 12 :: 8 word])
   \<and> load_mbm ([0x03, 0x4b, 0x53, 0x50, 2, 0, 0, 0, 2, 0, 0, 0, 0, 0, 0, 0, 24, 0, 0, 0]
               @ [1, 2, 3, 4, 5, 6, 7, 8, 9, 10, 11, 12])
       = Inr (2, 2, [1, 2, 3, 255, 4, 5, 6, 255, 7, 8, 9, 255, 10, 11, 12, 255])"
proof -
  have h: "unpack_5i [0x03, 0x4b, 0x53, 0x50, 2, 0, 0, 0, 2, 0, 0, 0, 0, 0, 0, 0, 24, 0, 0, 0]
      = Inr (0x50534b03, 2, 2, 0, 24)"
    by (simp add: unpack_5i_def unpack_i32_def)
  have w: "(0::int) \<le> 2" by simp
  have p: "(2::int) * 2 * 3 \<le> int (length [1, 2, 3, 4, 5, 6, 7, 8, 9, 10, 11, 12 :: 8 word])"
    by simp
  have n: "nat (2 * 2) = Suc (Suc (Suc (Suc 0)))" by simp
  have "rgb_to_rgba [1, 2, 3, 4, 5, 6, 7, 8, 9, 10, 11, 12] (nat (2 * 2))
      = [1, 2, 3, 255, 4, 5, 6, 255, 7, 8, 9, 255, 10, 11, 12, 255]"
    unfolding n rgb_to_rgba.simps by simp
  with load_mbm_rgb [OF h w w p] h w p show ?thesis by simp
qed

theorem load_mbm_buffer_length_witness:
  "unpack_5i [0x03, 0x4b, 0x53, 0x50, 1, 0, 0, 0, 2, 0, 0, 0, 1, 0, 0, 0, 32, 0, 0, 0]
     = Inr (0x50534b03, 1, 2, 1, 32)
   \<and> ((32::int) = 24 \<or> (32::int) = 32) \<and> (0::int) \<le> 1 \<and> (0::int) \<le> 2
   \<and> (1::int) * 2 * (32 div 8) \<le> int (length [1, 2, 3, 4, 5, 6, 7, 8 :: 8 word])
   \<and> (\<exists>pixels. load_mbm ([0x03, 0x4b, 0x53, 0x50, 1, 0, 0, 0, 2, 0, 0, 0, 1, 0, 0, 0, 32, 0, 0, 0]
                   @ [1, 2, 3, 4, 5, 6, 7, 8]) = Inr (1, 2, pixels)
         \<and> int (length pixels) = 1 * 2 * 4)"
proof -
  have h: "unpack_5i [0x03, 0x4b, 0x53, 0x50, 1, 0, 0, 0, 2, 0, 0, 0, 1, 0, 0, 0, 32, 0, 0, 0]
      = Inr (0x50534b03, 1, 2, 1, 32)"
    by (simp add: unpack_5i_def unpack_i32_def)
  have d: "(32::int) = 24 \<or> (32::int) = 32" by simp
  have w: "(0::int) \<le> 1" and g: "(0::int) \<le> 2" by simp_all
  have p: "(1::int) * 2 * (32 div 8) \<le> int (length [1, 2, 3, 4, 5, 6, 7, 8 :: 8 word])" by simp
  from load_mbm_buffer_length [OF h d w g p] h d w g p show ?thesis by blast
qed


end
